theory Spec2Isabelle
  imports Main "HOL-Library.AList"
begin

section \<open>Strings\<close>

text \<open>
  A JavaScript string is modelled as a \<^typ>\<open>string\<close>, one \<^typ>\<open>char\<close> per code unit, for
  the code units up to U+00FF. \<^verbatim>\<open>toLowerCase\<close> lowers the letters A to Z and, above them,
  U+00C0 to U+00DE without the multiplication sign U+00D7, each to the code unit 32 higher.
\<close>

definition toLowerChar :: "char \<Rightarrow> char" where
  "toLowerChar c =
     (let n = (of_char c :: nat)
      in if (65 \<le> n \<and> n \<le> 90) \<or> (192 \<le> n \<and> n \<le> 222 \<and> n \<noteq> 215)
         then char_of (n + 32) else c)"

definition toLowerCase :: "string \<Rightarrow> string" where
  "toLowerCase s = map toLowerChar s"

text \<open>
  White space removed by \<^verbatim>\<open>String.prototype.trim\<close>: TAB, LF, VT, FF, CR, the space and the
  no-break space U+00A0.
\<close>

definition isWhiteSpace :: "char \<Rightarrow> bool" where
  "isWhiteSpace c =
     (let n = (of_char c :: nat) in (9 \<le> n \<and> n \<le> 13) \<or> n = 32 \<or> n = 160)"

definition trim :: "string \<Rightarrow> string" where
  "trim s = rev (dropWhile isWhiteSpace (rev (dropWhile isWhiteSpace s)))"

text \<open>\<^verbatim>\<open>s.split(sep)\<close> for a one-character separator: never the empty array.\<close>

fun str_split :: "char \<Rightarrow> string \<Rightarrow> string list" where
  "str_split sep [] = [] # []"
| "str_split sep (c # cs) =
     (if c = sep then [] # str_split sep cs
      else (case str_split sep cs of
              p # ps \<Rightarrow> (c # p) # ps
            | [] \<Rightarrow> [c] # []))"

text \<open>\<^verbatim>\<open>s.includes(sub)\<close>: \<open>sub\<close> occurs in \<open>s\<close> as a contiguous run.\<close>

fun str_includes :: "string \<Rightarrow> string \<Rightarrow> bool" where
  "str_includes [] sub = (sub = [])"
| "str_includes (c # cs) sub = (take (length sub) (c # cs) = sub \<or> str_includes cs sub)"

text \<open>
  The word characters of a regular expression without the unicode flag: the ASCII letters
  and digits and the underscore.
\<close>

definition isWordChar :: "char \<Rightarrow> bool" where
  "isWordChar c =
     (let n = (of_char c :: nat)
      in (48 \<le> n \<and> n \<le> 57) \<or> (65 \<le> n \<and> n \<le> 90) \<or> n = 95 \<or> (97 \<le> n \<and> n \<le> 122))"

text \<open>
  \<^verbatim>\<open>keys.replace(/\bmod\b/g, r)\<close>: a scan from the left. \<open>pw\<close> tells whether the
  character before the current position is a word character (false at the start of the
  string). The pattern matches at the current position when a word boundary is there, the
  next three characters are \<^verbatim>\<open>mod\<close> and a word boundary follows them; the match is replaced
  by \<open>r\<close> and the scan goes on behind it. Otherwise the current character is copied.
  The two replacement strings of the library hold no \<^verbatim>\<open>$\<close>, so they are inserted as
  they are.
\<close>

fun replace_mod :: "string \<Rightarrow> bool \<Rightarrow> string \<Rightarrow> string" where
  "replace_mod r pw [] = []"
| "replace_mod r pw (c # cs) =
     (if \<not> pw \<and> take 3 (c # cs) = ''mod'' \<and>
         (case drop 2 cs of [] \<Rightarrow> True | d # _ \<Rightarrow> \<not> isWordChar d)
      then r @ replace_mod r True (drop 2 cs)
      else c # replace_mod r (isWordChar c) cs)"

section \<open>Sets and maps of the host language\<close>

text \<open>
  A JavaScript \<^verbatim>\<open>Set\<close> keeps its elements in insertion order and holds each once: a list
  without repetition. \<^verbatim>\<open>add\<close> of an element already there changes nothing.
\<close>

type_synonym 'a js_set = "'a list"

definition set_has :: "'a js_set \<Rightarrow> 'a \<Rightarrow> bool" where
  "set_has s x = (x \<in> set s)"

definition set_add :: "'a js_set \<Rightarrow> 'a \<Rightarrow> 'a js_set" where
  "set_add s x = (if x \<in> set s then s else s @ [x])"

definition set_delete :: "'a js_set \<Rightarrow> 'a \<Rightarrow> 'a js_set" where
  "set_delete s x = removeAll x s"

definition new_Set :: "'a list \<Rightarrow> 'a js_set" where
  "new_Set xs = foldl set_add [] xs"

text \<open>
  A JavaScript \<^verbatim>\<open>Map\<close> keeps its entries in insertion order, one per key: \<^verbatim>\<open>set\<close> on a
  key already there replaces the value where the entry stands, \<^verbatim>\<open>set\<close> on a new key appends.
\<close>

type_synonym ('k, 'v) js_map = "('k \<times> 'v) list"

definition map_get :: "('k, 'v) js_map \<Rightarrow> 'k \<Rightarrow> 'v option" where
  "map_get m k = map_of m k"

definition map_has :: "('k, 'v) js_map \<Rightarrow> 'k \<Rightarrow> bool" where
  "map_has m k = (map_of m k \<noteq> None)"

definition map_set :: "('k, 'v) js_map \<Rightarrow> 'k \<Rightarrow> 'v \<Rightarrow> ('k, 'v) js_map" where
  "map_set m k v = AList.update k v m"

definition map_delete :: "('k, 'v) js_map \<Rightarrow> 'k \<Rightarrow> ('k, 'v) js_map" where
  "map_delete m k = AList.delete k m"

definition map_values :: "('k, 'v) js_map \<Rightarrow> 'v list" where
  "map_values m = map snd m"

definition new_Map :: "('k \<times> 'v) list \<Rightarrow> ('k, 'v) js_map" where
  "new_Map entries = foldl (\<lambda>m (k, v). map_set m k v) [] entries"

section \<open>utils.ts\<close>

datatype platform = Mac | Windows | Linux

text \<open>
  The host environment: \<open>None\<close> when \<^verbatim>\<open>navigator\<close> is undefined, otherwise the value of
  \<^verbatim>\<open>navigator.platform\<close>. Every function that reads it takes it as its first argument.
\<close>

type_synonym navigator = "string option"

definition normalizeKey :: "string \<Rightarrow> string" where
  "normalizeKey key = toLowerCase key"

definition getPlatform :: "navigator \<Rightarrow> platform" where
  "getPlatform nav =
     (case nav of
        None \<Rightarrow> Linux
      | Some p \<Rightarrow>
          (let platform = toLowerCase p
           in if str_includes platform ''mac'' then Mac
              else if str_includes platform ''win'' then Windows
              else Linux))"

definition isMac :: "navigator \<Rightarrow> bool" where
  "isMac nav = (getPlatform nav = Mac)"

definition resolvePlatformModifier :: "navigator \<Rightarrow> string \<Rightarrow> string" where
  "resolvePlatformModifier nav keys =
     (let modifier = (if isMac nav then ''meta'' else ''ctrl'')
      in replace_mod modifier False keys)"

record KeyCombination =
  modifiers :: "string js_set"
  key :: string

definition parseKeyCombination :: "navigator \<Rightarrow> string \<Rightarrow> KeyCombination" where
  "parseKeyCombination nav keys =
     (let parts = map trim (str_split (CHR ''+'') (toLowerCase (resolvePlatformModifier nav keys)))
      in \<lparr> modifiers = new_Set (butlast parts), key = last parts \<rparr>)"

text \<open>
  The fields of a keyboard event that the library reads, and the two flags that
  \<^verbatim>\<open>preventDefault()\<close> and \<^verbatim>\<open>stopPropagation()\<close> set.
\<close>

record KeyboardEvent =
  key_ev :: string
  ctrlKey :: bool
  shiftKey :: bool
  altKey :: bool
  metaKey :: bool
  defaultPrevented :: bool
  propagationStopped :: bool

definition matchesKeyCombination :: "navigator \<Rightarrow> KeyboardEvent \<Rightarrow> string \<Rightarrow> bool" where
  "matchesKeyCombination nav event keys =
     (let pk = parseKeyCombination nav keys;
          eventKey = normalizeKey (key_ev event)
      in if eventKey \<noteq> key pk then False
         else
           (let hasCtrl = (set_has (modifiers pk) ''ctrl'' = ctrlKey event);
                hasShift = (set_has (modifiers pk) ''shift'' = shiftKey event);
                hasAlt = (set_has (modifiers pk) ''alt'' = altKey event);
                hasMeta = (set_has (modifiers pk) ''meta'' = metaKey event)
            in hasCtrl \<and> hasShift \<and> hasAlt \<and> hasMeta))"

text \<open>types.ts: a shortcut definition. An optional field that is left out is \<open>None\<close>.\<close>

record ShortcutConfig =
  id_cfg :: string
  name :: string
  description :: string
  keys :: string
  preventDefault :: "bool option"
  enabled :: "bool option"
  scope :: "string option"

record Conflict =
  id1 :: string
  id2 :: string
  keys_cf :: string

text \<open>
  The loop of \<^verbatim>\<open>detectConflicts\<close>, with the map \<^verbatim>\<open>seenKeys\<close> and the array \<^verbatim>\<open>conflicts\<close>
  as its state. The test \<^verbatim>\<open>if (existing)\<close> is a truth test on a value that is a string or
  undefined: it fails for undefined and for the empty string.
\<close>

fun detectConflicts_loop ::
  "navigator \<Rightarrow> ShortcutConfig list \<Rightarrow> (string, string) js_map \<Rightarrow> Conflict list
     \<Rightarrow> (string, string) js_map \<times> Conflict list" where
  "detectConflicts_loop nav [] seenKeys conflicts = (seenKeys, conflicts)"
| "detectConflicts_loop nav (shortcut # rest) seenKeys conflicts =
     (let normalizedKeys = toLowerCase (resolvePlatformModifier nav (keys shortcut));
          existing = map_get seenKeys normalizedKeys
      in case existing of
           Some e \<Rightarrow>
             if e \<noteq> []
             then detectConflicts_loop nav rest seenKeys
                    (conflicts @ [\<lparr> id1 = e, id2 = id_cfg shortcut, keys_cf = normalizedKeys \<rparr>])
             else detectConflicts_loop nav rest
                    (map_set seenKeys normalizedKeys (id_cfg shortcut)) conflicts
         | None \<Rightarrow>
             detectConflicts_loop nav rest
               (map_set seenKeys normalizedKeys (id_cfg shortcut)) conflicts)"

definition detectConflicts :: "navigator \<Rightarrow> ShortcutConfig list \<Rightarrow> Conflict list" where
  "detectConflicts nav shortcuts = snd (detectConflicts_loop nav shortcuts [] [])"

section \<open>emitter.ts\<close>

text \<open>
  A listener is a function object of the caller; the model knows it by its identity and
  records each invocation, with the value passed, in the container that made it. What a
  listener does when invoked is outside the model.
\<close>

type_synonym listener = nat

record 'a EventEmitter =
  listeners_em :: "listener js_set"
  calls_em :: "(listener \<times> 'a) list"

definition new_EventEmitter :: "'a EventEmitter" where
  "new_EventEmitter = \<lparr> listeners_em = [], calls_em = [] \<rparr>"

text \<open>
  \<^verbatim>\<open>subscribe\<close> returns the emitter and the unsubscribe closure, a function on the
  emitter's state.
\<close>

definition subscribe_em ::
  "'a EventEmitter \<Rightarrow> listener \<Rightarrow> 'a EventEmitter \<times> ('a EventEmitter \<Rightarrow> 'a EventEmitter)" where
  "subscribe_em e l =
     (e\<lparr> listeners_em := set_add (listeners_em e) l \<rparr>,
      \<lambda>e'. e'\<lparr> listeners_em := set_delete (listeners_em e') l \<rparr>)"

definition emit :: "'a EventEmitter \<Rightarrow> 'a \<Rightarrow> 'a EventEmitter" where
  "emit e v = e\<lparr> calls_em := calls_em e @ map (\<lambda>l. (l, v)) (listeners_em e) \<rparr>"

definition size_em :: "'a EventEmitter \<Rightarrow> nat" where
  "size_em e = length (listeners_em e)"

definition clear_em :: "'a EventEmitter \<Rightarrow> 'a EventEmitter" where
  "clear_em e = e\<lparr> listeners_em := [] \<rparr>"

record 'a Store =
  value_st :: 'a
  listeners_st :: "listener js_set"
  calls_st :: "(listener \<times> 'a) list"

definition createStore :: "'a \<Rightarrow> 'a Store" where
  "createStore initialValue = \<lparr> value_st = initialValue, listeners_st = [], calls_st = [] \<rparr>"

definition get :: "'a Store \<Rightarrow> 'a" where
  "get s = value_st s"

definition notify :: "'a Store \<Rightarrow> 'a Store" where
  "notify s = s\<lparr> calls_st := calls_st s @ map (\<lambda>l. (l, value_st s)) (listeners_st s) \<rparr>"

definition set_st :: "'a Store \<Rightarrow> 'a \<Rightarrow> 'a Store" where
  "set_st s newValue = notify (s\<lparr> value_st := newValue \<rparr>)"

definition update :: "'a Store \<Rightarrow> ('a \<Rightarrow> 'a) \<Rightarrow> 'a Store" where
  "update s updater = notify (s\<lparr> value_st := updater (value_st s) \<rparr>)"

text \<open>
  \<^verbatim>\<open>Store.subscribe(listener, immediate)\<close>: the store after the call and the unsubscribe
  closure it returns.
\<close>

definition subscribe ::
  "'a Store \<Rightarrow> listener \<Rightarrow> bool \<Rightarrow> 'a Store \<times> ('a Store \<Rightarrow> 'a Store)" where
  "subscribe s l immediate =
     (let s1 = s\<lparr> listeners_st := set_add (listeners_st s) l \<rparr>;
          s2 = (if immediate then s1\<lparr> calls_st := calls_st s1 @ [(l, value_st s1)] \<rparr> else s1)
      in (s2, \<lambda>s'. s'\<lparr> listeners_st := set_delete (listeners_st s') l \<rparr>))"

definition subscriberCount :: "'a Store \<Rightarrow> nat" where
  "subscriberCount s = length (listeners_st s)"

section \<open>manager.ts\<close>

record ShortcutEvent =
  id_ev :: string
  timestamp :: int
  originalEvent :: KeyboardEvent

record ShortcutManagerOptions =
  shortcuts_opt :: "ShortcutConfig list option"
  scope_opt :: "string option"
  debug_opt :: "bool option"

text \<open>What the manager writes to the console: the text of each message, by its template.\<close>

datatype message =
    Initialized
  | Destroyed
  | ShortcutTriggered string
  | ShortcutRegistered string
  | ShortcutsRegistered nat
  | ShortcutUnregistered string
  | ScopeChanged string

datatype console_entry = ConsoleLog message | ConsoleWarn "Conflict list"

text \<open>A callback given to \<^verbatim>\<open>subscribe(id, callback)\<close>, known by its identity like a listener.\<close>

type_synonym callback = nat

text \<open>
  The fields of the class, and two records of what the manager did to its environment:
  \<open>callbackCalls\<close>, the invocations made by \<^verbatim>\<open>notifySubscribers\<close> in order, and
  \<open>console\<close>, the lines written by \<^verbatim>\<open>console.log\<close> and \<^verbatim>\<open>console.warn\<close>.
\<close>

record ShortcutManager =
  shortcuts :: "(string, ShortcutConfig) js_map Store"
  lastTriggeredShortcut :: "ShortcutEvent option Store"
  pressedKeys :: "string js_set Store"
  triggerEmitter :: "ShortcutEvent EventEmitter"
  subscribers :: "(string, callback js_set) js_map"
  isInitialized :: bool
  currentScope :: string
  debug :: bool
  callbackCalls :: "(callback \<times> ShortcutEvent) list"
  console :: "console_entry list"

definition MODIFIER_KEYS :: "string js_set" where
  "MODIFIER_KEYS = new_Set [''meta'', ''control'', ''alt'', ''shift'']"

definition log :: "ShortcutManager \<Rightarrow> message \<Rightarrow> ShortcutManager" where
  "log m msg = (if debug m then m\<lparr> console := console m @ [ConsoleLog msg] \<rparr> else m)"

definition checkConflicts :: "navigator \<Rightarrow> ShortcutManager \<Rightarrow> ShortcutManager" where
  "checkConflicts nav m =
     (let currentShortcuts = map_values (get (shortcuts m));
          conflicts = detectConflicts nav currentShortcuts
      in if length conflicts > 0 then m\<lparr> console := console m @ [ConsoleWarn conflicts] \<rparr>
         else m)"

definition loadShortcuts :: "navigator \<Rightarrow> ShortcutManager \<Rightarrow> ShortcutConfig list \<Rightarrow> ShortcutManager" where
  "loadShortcuts nav m configs =
     (let shortcutMap = new_Map (map (\<lambda>c. (id_cfg c, c)) configs)
      in checkConflicts nav (m\<lparr> shortcuts := set_st (shortcuts m) shortcutMap \<rparr>))"

definition constructor :: "navigator \<Rightarrow> ShortcutManagerOptions \<Rightarrow> ShortcutManager" where
  "constructor nav options =
     (let initialShortcuts = (case shortcuts_opt options of None \<Rightarrow> [] | Some cs \<Rightarrow> cs);
          scope0 = (case scope_opt options of None \<Rightarrow> ''global'' | Some s \<Rightarrow> s);
          debug0 = (case debug_opt options of None \<Rightarrow> False | Some d \<Rightarrow> d);
          m = \<lparr> shortcuts = createStore [],
                lastTriggeredShortcut = createStore None,
                pressedKeys = createStore [],
                triggerEmitter = new_EventEmitter,
                subscribers = [],
                isInitialized = False,
                currentScope = scope0,
                debug = debug0,
                callbackCalls = [],
                console = [] \<rparr>
      in if length initialShortcuts > 0 then loadShortcuts nav m initialShortcuts else m)"

text \<open>\<open>window\<close> tells whether the host has a \<^verbatim>\<open>window\<close> object to bind the handlers to.\<close>

definition init :: "bool \<Rightarrow> ShortcutManager \<Rightarrow> ShortcutManager" where
  "init window m =
     (if isInitialized m then m
      else if \<not> window then m
      else log (m\<lparr> isInitialized := True \<rparr>) Initialized)"

definition destroy :: "bool \<Rightarrow> ShortcutManager \<Rightarrow> ShortcutManager" where
  "destroy window m =
     (if \<not> isInitialized m then m
      else if \<not> window then m
      else log (m\<lparr> isInitialized := False \<rparr>) Destroyed)"

definition clearNonModifierKeys :: "ShortcutManager \<Rightarrow> ShortcutManager" where
  "clearNonModifierKeys m =
     m\<lparr> pressedKeys :=
          update (pressedKeys m)
            (\<lambda>keys. foldl (\<lambda>newKeys key. if set_has MODIFIER_KEYS key then set_add newKeys key
                                            else newKeys) [] keys) \<rparr>"

definition notifySubscribers :: "ShortcutManager \<Rightarrow> string \<Rightarrow> ShortcutEvent \<Rightarrow> ShortcutManager" where
  "notifySubscribers m i event =
     (case map_get (subscribers m) i of
        None \<Rightarrow> m
      | Some callbacks \<Rightarrow>
          m\<lparr> callbackCalls := callbackCalls m @ map (\<lambda>cb. (cb, event)) callbacks \<rparr>)"

text \<open>
  The test on the scope in the loop of \<^verbatim>\<open>handleKeyDown\<close>: true when the definition is
  skipped. \<^verbatim>\<open>config.scope &&\<close> is a truth test: it fails for a scope left out and for
  the empty string.
\<close>

definition scope_skips :: "ShortcutConfig \<Rightarrow> string \<Rightarrow> bool" where
  "scope_skips config cur =
     (case scope config of
        None \<Rightarrow> False
      | Some s \<Rightarrow> s \<noteq> [] \<and> s \<noteq> cur \<and> s \<noteq> ''global'')"

text \<open>The body of the loop once the keys match, up to the \<^verbatim>\<open>break\<close>.\<close>

definition trigger ::
  "ShortcutManager \<Rightarrow> string \<Rightarrow> ShortcutConfig \<Rightarrow> KeyboardEvent \<Rightarrow> int
     \<Rightarrow> ShortcutManager \<times> KeyboardEvent" where
  "trigger m i config event now =
     (let event1 = (if preventDefault config \<noteq> Some False
                    then event\<lparr> defaultPrevented := True, propagationStopped := True \<rparr>
                    else event);
          shortcutEvent = \<lparr> id_ev = i, timestamp = now, originalEvent = event1 \<rparr>;
          m1 = m\<lparr> lastTriggeredShortcut := set_st (lastTriggeredShortcut m) (Some shortcutEvent) \<rparr>;
          m2 = m1\<lparr> triggerEmitter := emit (triggerEmitter m1) shortcutEvent \<rparr>;
          m3 = notifySubscribers m2 i shortcutEvent;
          m4 = clearNonModifierKeys m3
      in (log m4 (ShortcutTriggered i), event1))"

fun handleKeyDown_loop ::
  "navigator \<Rightarrow> (string \<times> ShortcutConfig) list \<Rightarrow> ShortcutManager \<Rightarrow> KeyboardEvent \<Rightarrow> int
     \<Rightarrow> ShortcutManager \<times> KeyboardEvent" where
  "handleKeyDown_loop nav [] m event now = (m, event)"
| "handleKeyDown_loop nav ((i, config) # rest) m event now =
     (if enabled config = Some False then handleKeyDown_loop nav rest m event now
      else if scope_skips config (currentScope m) then handleKeyDown_loop nav rest m event now
      else if matchesKeyCombination nav event (keys config) then trigger m i config event now
      else handleKeyDown_loop nav rest m event now)"

text \<open>\<open>now\<close> is the value of \<^verbatim>\<open>Date.now()\<close> at the event.\<close>

definition handleKeyDown ::
  "navigator \<Rightarrow> ShortcutManager \<Rightarrow> KeyboardEvent \<Rightarrow> int \<Rightarrow> ShortcutManager \<times> KeyboardEvent" where
  "handleKeyDown nav m event now =
     (let m1 = m\<lparr> pressedKeys :=
                    update (pressedKeys m) (\<lambda>keys. set_add keys (toLowerCase (key_ev event))) \<rparr>;
          currentShortcuts = get (shortcuts m1)
      in handleKeyDown_loop nav currentShortcuts m1 event now)"

definition handleKeyUp :: "ShortcutManager \<Rightarrow> KeyboardEvent \<Rightarrow> ShortcutManager" where
  "handleKeyUp m event =
     m\<lparr> pressedKeys :=
          update (pressedKeys m) (\<lambda>keys. set_delete keys (toLowerCase (key_ev event))) \<rparr>"

definition handleBlur :: "ShortcutManager \<Rightarrow> ShortcutManager" where
  "handleBlur m = m\<lparr> pressedKeys := set_st (pressedKeys m) [] \<rparr>"

definition unsubscribe_mgr :: "ShortcutManager \<Rightarrow> string \<Rightarrow> callback \<Rightarrow> ShortcutManager" where
  "unsubscribe_mgr m i cb =
     (case map_get (subscribers m) i of
        None \<Rightarrow> m
      | Some callbacks \<Rightarrow>
          (let callbacks' = set_delete callbacks cb
           in if length callbacks' = 0
              then m\<lparr> subscribers := map_delete (subscribers m) i \<rparr>
              else m\<lparr> subscribers := map_set (subscribers m) i callbacks' \<rparr>))"

definition subscribe_mgr :: "ShortcutManager \<Rightarrow> string \<Rightarrow> callback \<Rightarrow> ShortcutManager" where
  "subscribe_mgr m i cb =
     (let subs = (if \<not> map_has (subscribers m) i then map_set (subscribers m) i []
                  else subscribers m)
      in case map_get subs i of
           Some callbacks \<Rightarrow> m\<lparr> subscribers := map_set subs i (set_add callbacks cb) \<rparr>
         | None \<Rightarrow> m\<lparr> subscribers := subs \<rparr>)"

definition onTrigger :: "ShortcutManager \<Rightarrow> listener \<Rightarrow> ShortcutManager" where
  "onTrigger m cb = m\<lparr> triggerEmitter := fst (subscribe_em (triggerEmitter m) cb) \<rparr>"

definition registerShortcut :: "navigator \<Rightarrow> ShortcutManager \<Rightarrow> ShortcutConfig \<Rightarrow> ShortcutManager" where
  "registerShortcut nav m config =
     (let m1 = m\<lparr> shortcuts := update (shortcuts m) (\<lambda>mp. map_set mp (id_cfg config) config) \<rparr>;
          m2 = checkConflicts nav m1
      in log m2 (ShortcutRegistered (id_cfg config)))"

definition registerShortcuts :: "navigator \<Rightarrow> ShortcutManager \<Rightarrow> ShortcutConfig list \<Rightarrow> ShortcutManager" where
  "registerShortcuts nav m configs =
     (let m1 = m\<lparr> shortcuts :=
                    update (shortcuts m)
                      (\<lambda>mp. foldl (\<lambda>newMap config. map_set newMap (id_cfg config) config) mp configs) \<rparr>;
          m2 = checkConflicts nav m1
      in log m2 (ShortcutsRegistered (length configs)))"

definition unregisterShortcut :: "ShortcutManager \<Rightarrow> string \<Rightarrow> ShortcutManager" where
  "unregisterShortcut m i =
     log (m\<lparr> shortcuts := update (shortcuts m) (\<lambda>mp. map_delete mp i) \<rparr>)
       (ShortcutUnregistered i)"

definition enableShortcut :: "ShortcutManager \<Rightarrow> string \<Rightarrow> ShortcutManager" where
  "enableShortcut m i =
     m\<lparr> shortcuts :=
          update (shortcuts m)
            (\<lambda>mp. case map_get mp i of
                     Some shortcut \<Rightarrow> map_set mp i (shortcut\<lparr> enabled := Some True \<rparr>)
                   | None \<Rightarrow> mp) \<rparr>"

definition disableShortcut :: "ShortcutManager \<Rightarrow> string \<Rightarrow> ShortcutManager" where
  "disableShortcut m i =
     m\<lparr> shortcuts :=
          update (shortcuts m)
            (\<lambda>mp. case map_get mp i of
                     Some shortcut \<Rightarrow> map_set mp i (shortcut\<lparr> enabled := Some False \<rparr>)
                   | None \<Rightarrow> mp) \<rparr>"

definition getShortcut :: "ShortcutManager \<Rightarrow> string \<Rightarrow> ShortcutConfig option" where
  "getShortcut m i = map_get (get (shortcuts m)) i"

definition getAllShortcuts :: "ShortcutManager \<Rightarrow> ShortcutConfig list" where
  "getAllShortcuts m = map_values (get (shortcuts m))"

definition getActiveShortcuts :: "ShortcutManager \<Rightarrow> ShortcutConfig list" where
  "getActiveShortcuts m = filter (\<lambda>s. enabled s \<noteq> Some False) (getAllShortcuts m)"

definition setScope :: "ShortcutManager \<Rightarrow> string \<Rightarrow> ShortcutManager" where
  "setScope m s = log (m\<lparr> currentScope := s \<rparr>) (ScopeChanged s)"

definition getScope :: "ShortcutManager \<Rightarrow> string" where
  "getScope m = currentScope m"

section \<open>Notions used in the statements\<close>

text \<open>
  The three tests that the loop of \<^verbatim>\<open>handleKeyDown\<close> makes on a definition, together: the
  definition is not disabled, its scope does not skip it, and the event matches its keys.
\<close>

definition eligible :: "navigator \<Rightarrow> string \<Rightarrow> KeyboardEvent \<Rightarrow> ShortcutConfig \<Rightarrow> bool" where
  "eligible nav cur event config =
     (enabled config \<noteq> Some False \<and> \<not> scope_skips config cur \<and>
      matchesKeyCombination nav event (keys config))"

text \<open>
  The words of a string as the pattern \<^verbatim>\<open>\b\<close> delimits them: the string cut into its
  maximal runs of word characters, each other character a piece of its own. \<^verbatim>\<open>mod\<close>
  stands in a string as a whole word when it is one of these runs, that is, when the
  pattern \<^verbatim>\<open>\bmod\b\<close> has a match in the string.
\<close>

function word_runs :: "string \<Rightarrow> string list" where
  "word_runs [] = []"
| "word_runs (c # cs) =
     (if isWordChar c
      then (c # takeWhile isWordChar cs) # word_runs (dropWhile isWordChar cs)
      else [c] # word_runs cs)"
  by pat_completeness auto
termination
  by (relation "measure length") (auto simp: less_Suc_eq_le length_dropWhile_le)

definition mod_as_word :: "string \<Rightarrow> bool" where
  "mod_as_word t = (''mod'' \<in> set (word_runs t))"

text \<open>
  The combination string of a definition as \<^verbatim>\<open>detectConflicts\<close> normalizes it: resolved for
  the platform, then lower-cased.
\<close>

definition normalizedKeys :: "navigator \<Rightarrow> ShortcutConfig \<Rightarrow> string" where
  "normalizedKeys nav c = toLowerCase (resolvePlatformModifier nav (keys c))"

text \<open>
  The conflicts of a sequence of definitions, written after the description of the
  detector rather than after its code: \<open>earlier\<close> holds the definitions already passed, in
  order; a definition whose normalized combination is that of an earlier one gives one
  conflict, against the first of them.
\<close>

fun conflicts_first_seen ::
  "navigator \<Rightarrow> ShortcutConfig list \<Rightarrow> ShortcutConfig list \<Rightarrow> Conflict list" where
  "conflicts_first_seen nav earlier [] = []"
| "conflicts_first_seen nav earlier (c # cs) =
     (case List.find (\<lambda>p. normalizedKeys nav p = normalizedKeys nav c) earlier of
        Some f \<Rightarrow> [\<lparr> id1 = id_cfg f, id2 = id_cfg c, keys_cf = normalizedKeys nav c \<rparr>]
      | None \<Rightarrow> [])
     @ conflicts_first_seen nav (earlier @ [c]) cs"

section \<open>Example inputs\<close>

definition cfg_save :: ShortcutConfig where
  "cfg_save = \<lparr> id_cfg = ''save'', name = ''Save'', description = ''Save the file'',
                keys = ''ctrl+s'', preventDefault = None, enabled = None, scope = None \<rparr>"

definition cfg_save2 :: ShortcutConfig where
  "cfg_save2 = \<lparr> id_cfg = ''save2'', name = ''Save as'', description = ''Save a copy'',
                 keys = ''ctrl+s'', preventDefault = None, enabled = None, scope = None \<rparr>"

definition ev_ctrl_s :: KeyboardEvent where
  "ev_ctrl_s = \<lparr> key_ev = ''s'', ctrlKey = True, shiftKey = False, altKey = False,
                 metaKey = False, defaultPrevented = False, propagationStopped = False \<rparr>"

definition ev_control :: KeyboardEvent where
  "ev_control = \<lparr> key_ev = ''Control'', ctrlKey = True, shiftKey = False, altKey = False,
                  metaKey = False, defaultPrevented = False, propagationStopped = False \<rparr>"

text \<open>
  A manager built with two definitions bound to the same keys, one callback subscribed to
  each; then the same manager after the Control key went down.
\<close>

definition mgr_two :: ShortcutManager where
  "mgr_two =
     subscribe_mgr
       (subscribe_mgr
          (constructor None \<lparr> shortcuts_opt = Some [cfg_save, cfg_save2], scope_opt = None,
                              debug_opt = None \<rparr>)
          ''save'' 1)
       ''save2'' 2"

definition mgr_held :: ShortcutManager where
  "mgr_held = fst (handleKeyDown None mgr_two ev_control 0)"

text \<open>
  A definition whose scope is the empty string, in a manager whose current scope is
  \<^verbatim>\<open>editor\<close>; a definition scoped to \<^verbatim>\<open>modal\<close>.
\<close>

definition cfg_blank :: ShortcutConfig where
  "cfg_blank = \<lparr> id_cfg = ''find'', name = ''Find'', description = ''Find in file'',
                 keys = ''ctrl+s'', preventDefault = None, enabled = None, scope = Some [] \<rparr>"

definition mgr_editor :: ShortcutManager where
  "mgr_editor = constructor None \<lparr> shortcuts_opt = Some [cfg_blank], scope_opt = Some ''editor'',
                                    debug_opt = None \<rparr>"

definition cfg_modal :: ShortcutConfig where
  "cfg_modal = \<lparr> id_cfg = ''close'', name = ''Close'', description = ''Close the dialog'',
                 keys = ''ctrl+s'', preventDefault = None, enabled = None, scope = Some ''modal'' \<rparr>"

text \<open>A second definition under the id \<^verbatim>\<open>save\<close>, every other field different.\<close>

definition cfg_save_new :: ShortcutConfig where
  "cfg_save_new = \<lparr> id_cfg = ''save'', name = ''Save all'', description = ''Save every file'',
                    keys = ''ctrl+shift+s'', preventDefault = Some False, enabled = Some True,
                    scope = Some ''editor'' \<rparr>"

text \<open>Three definitions bound to \<^verbatim>\<open>mod+s\<close>, and a fourth whose id is the empty string.\<close>

definition cfg_a :: ShortcutConfig where
  "cfg_a = \<lparr> id_cfg = ''a'', name = ''A'', description = ''first'',
             keys = ''mod+s'', preventDefault = None, enabled = None, scope = None \<rparr>"

definition cfg_b :: ShortcutConfig where
  "cfg_b = \<lparr> id_cfg = ''b'', name = ''B'', description = ''second'',
             keys = ''mod+s'', preventDefault = None, enabled = None, scope = None \<rparr>"

definition cfg_c :: ShortcutConfig where
  "cfg_c = \<lparr> id_cfg = ''c'', name = ''C'', description = ''third'',
             keys = ''mod+s'', preventDefault = None, enabled = None, scope = None \<rparr>"

definition cfg_noid :: ShortcutConfig where
  "cfg_noid = \<lparr> id_cfg = [], name = ''N'', description = ''empty id'',
                keys = ''mod+s'', preventDefault = None, enabled = None, scope = None \<rparr>"

section \<open>Properties of the containers\<close>

lemma set_foldl_set_add: "set (foldl set_add acc xs) = set acc \<union> set xs"
  by (induction xs arbitrary: acc) (auto simp: set_add_def)

lemma set_new_Set: "set (new_Set xs) = set xs"
  by (simp add: new_Set_def set_foldl_set_add)

lemma distinct_foldl_set_add: "distinct acc \<Longrightarrow> distinct (foldl set_add acc xs)"
  by (induction xs arbitrary: acc) (auto simp: set_add_def)

lemma distinct_new_Set: "distinct (new_Set xs)"
  by (simp add: new_Set_def distinct_foldl_set_add)

text \<open>\<^verbatim>\<open>split\<close> gives at least one part, so the parser's last part exists.\<close>

lemma str_split_nonempty: "str_split sep s \<noteq> []"
  by (induction s) (auto split: list.splits)

section \<open>The matcher\<close>

text \<open>
  C1. The matcher returns true exactly when the lower-cased key of the event is the parsed
  key and, for each of ctrl, shift, alt and meta, the modifier is in the parsed set exactly
  when the event asserts its flag. So flipping any one of the four flags of a matching
  event, asserting a modifier the combination omits or dropping one it names, gives an
  event that does not match.
\<close>

theorem matchesKeyCombination_exact:
  "(matchesKeyCombination nav event ks \<longleftrightarrow>
      (normalizeKey (key_ev event) = key (parseKeyCombination nav ks) \<and>
       set_has (modifiers (parseKeyCombination nav ks)) ''ctrl'' = ctrlKey event \<and>
       set_has (modifiers (parseKeyCombination nav ks)) ''shift'' = shiftKey event \<and>
       set_has (modifiers (parseKeyCombination nav ks)) ''alt'' = altKey event \<and>
       set_has (modifiers (parseKeyCombination nav ks)) ''meta'' = metaKey event)) \<and>
   (matchesKeyCombination nav event ks \<longrightarrow>
      \<not> matchesKeyCombination nav (event\<lparr> ctrlKey := \<not> ctrlKey event \<rparr>) ks \<and>
      \<not> matchesKeyCombination nav (event\<lparr> shiftKey := \<not> shiftKey event \<rparr>) ks \<and>
      \<not> matchesKeyCombination nav (event\<lparr> altKey := \<not> altKey event \<rparr>) ks \<and>
      \<not> matchesKeyCombination nav (event\<lparr> metaKey := \<not> metaKey event \<rparr>) ks)"
  by (auto simp: matchesKeyCombination_def Let_def)

theorem matchesKeyCombination_exact_witness:
  "matchesKeyCombination None ev_ctrl_s ''ctrl+s'' \<and>
   \<not> matchesKeyCombination None (ev_ctrl_s\<lparr> shiftKey := True \<rparr>) ''ctrl+s''"
proof -
  have h: "matchesKeyCombination None ev_ctrl_s ''ctrl+s''" by code_simp
  have s: "ev_ctrl_s\<lparr> shiftKey := \<not> shiftKey ev_ctrl_s \<rparr> = ev_ctrl_s\<lparr> shiftKey := True \<rparr>"
    by (simp add: ev_ctrl_s_def)
  from matchesKeyCombination_exact [of None ev_ctrl_s "''ctrl+s''"] h s
  show ?thesis by simp
qed

section \<open>The reactive container\<close>

text \<open>
  C8. \<^verbatim>\<open>subscribe(listener, true)\<close> on a store makes one invocation, of that listener with
  the value the store holds at the call, keeps the value, and has the listener registered
  when it returns. The unsubscribe closure it returns, run on any later state \<open>t\<close> of the
  store, leaves the listener unregistered, removes no other listener, touches neither the
  value nor the record of invocations, and run a second time changes nothing.
\<close>

theorem Store_subscribe_immediate:
  "calls_st (fst (subscribe s l True)) = calls_st s @ [(l, value_st s)] \<and>
   value_st (fst (subscribe s l True)) = value_st s \<and>
   set_has (listeners_st (fst (subscribe s l True))) l \<and>
   \<not> set_has (listeners_st (snd (subscribe s l True) t)) l \<and>
   set (listeners_st (snd (subscribe s l True) t)) = set (listeners_st t) - {l} \<and>
   value_st (snd (subscribe s l True) t) = value_st t \<and>
   calls_st (snd (subscribe s l True) t) = calls_st t \<and>
   snd (subscribe s l True) (snd (subscribe s l True) t) = snd (subscribe s l True) t"
  by (simp add: subscribe_def Let_def set_has_def set_add_def set_delete_def)

theorem Store_subscribe_immediate_witness:
  "calls_st (fst (subscribe (createStore (7::int)) 1 True)) = [(1, 7)] \<and>
   listeners_st (fst (subscribe (createStore (7::int)) 1 True)) = [1] \<and>
   listeners_st (snd (subscribe (createStore (7::int)) 1 True)
                   (fst (subscribe (createStore (7::int)) 1 True))) = []"
  using Store_subscribe_immediate [of "createStore (7::int)" 1 "fst (subscribe (createStore (7::int)) 1 True)"]
  by (simp add: createStore_def subscribe_def Let_def set_add_def set_delete_def)

section \<open>Key-down dispatch\<close>

lemma handleKeyDown_loop_find:
  "handleKeyDown_loop nav tbl m event now =
     (case List.find (\<lambda>(i, c). eligible nav (currentScope m) event c) tbl of
        None \<Rightarrow> (m, event)
      | Some (i, c) \<Rightarrow> trigger m i c event now)"
proof (induction tbl)
  case Nil
  show ?case by simp
next
  case (Cons p tbl)
  obtain i c where p: "p = (i, c)" by (cases p)
  show ?case unfolding p using Cons by (simp add: eligible_def)
qed

lemma handleKeyDown_find:
  "handleKeyDown nav m event now =
     (let m1 = m\<lparr> pressedKeys :=
                    update (pressedKeys m) (\<lambda>ks. set_add ks (toLowerCase (key_ev event))) \<rparr>
      in case List.find (\<lambda>(i, c). eligible nav (currentScope m) event c)
                (value_st (shortcuts m)) of
           None \<Rightarrow> (m1, event)
         | Some (i, c) \<Rightarrow> trigger m1 i c event now)"
  by (simp add: handleKeyDown_def Let_def handleKeyDown_loop_find get_def)



section \<open>Pressed keys\<close>

lemma set_clear_fold:
  "set (foldl (\<lambda>newKeys k. if set_has M k then set_add newKeys k else newKeys) acc ks)
     = set acc \<union> {k \<in> set ks. k \<in> set M}"
  by (induction ks arbitrary: acc) (auto simp: set_add_def set_has_def)

lemma set_MODIFIER_KEYS: "set MODIFIER_KEYS = {''meta'', ''control'', ''alt'', ''shift''}"
  by (simp add: MODIFIER_KEYS_def set_new_Set)

lemma clearNonModifierKeys_value:
  "set (value_st (pressedKeys (clearNonModifierKeys m))) =
     {k \<in> set (value_st (pressedKeys m)). k \<in> {''meta'', ''control'', ''alt'', ''shift''}}"
  by (simp add: clearNonModifierKeys_def update_def notify_def set_clear_fold set_MODIFIER_KEYS)

lemma trigger_pressedKeys:
  "set (value_st (pressedKeys (fst (trigger m i c event now)))) =
     {k \<in> set (value_st (pressedKeys m)). k \<in> {''meta'', ''control'', ''alt'', ''shift''}}"
proof -
  have "pressedKeys (fst (trigger m i c event now)) = pressedKeys (clearNonModifierKeys m)"
    by (simp add: trigger_def Let_def log_def clearNonModifierKeys_def notifySubscribers_def
        split: option.splits)
  then show ?thesis by (simp add: clearNonModifierKeys_value)
qed

text \<open>
  C4. The clear-stuck-keys operation leaves in the pressed-key set exactly the keys that
  were there and are one of meta, control, alt, shift: no modifier name is removed and every
  other key is. When a key-down event fires a shortcut, the pressed-key set after the event
  is the set before it, with the key of the event added, cut down in that way.
\<close>

theorem clearNonModifierKeys_keeps_modifiers:
  "set (value_st (pressedKeys (clearNonModifierKeys m))) =
     {k \<in> set (value_st (pressedKeys m)). k \<in> {''meta'', ''control'', ''alt'', ''shift''}} \<and>
   (List.find (\<lambda>(i, c). eligible nav (currentScope m) event c) (value_st (shortcuts m)) \<noteq> None
      \<longrightarrow>
      set (value_st (pressedKeys (fst (handleKeyDown nav m event now)))) =
        {k \<in> insert (toLowerCase (key_ev event)) (set (value_st (pressedKeys m))).
           k \<in> {''meta'', ''control'', ''alt'', ''shift''}})"
proof (intro conjI impI)
  show "set (value_st (pressedKeys (clearNonModifierKeys m))) =
     {k \<in> set (value_st (pressedKeys m)). k \<in> {''meta'', ''control'', ''alt'', ''shift''}}"
    by (rule clearNonModifierKeys_value)
next
  assume "List.find (\<lambda>(i, c). eligible nav (currentScope m) event c) (value_st (shortcuts m))
            \<noteq> None"
  then obtain i c where
    f: "List.find (\<lambda>(i, c). eligible nav (currentScope m) event c) (value_st (shortcuts m))
          = Some (i, c)"
    by auto
  have "set (value_st (pressedKeys (fst (handleKeyDown nav m event now)))) =
     {k \<in> set (set_add (value_st (pressedKeys m)) (toLowerCase (key_ev event))).
        k \<in> {''meta'', ''control'', ''alt'', ''shift''}}"
    by (simp add: handleKeyDown_find f Let_def trigger_pressedKeys update_def notify_def)
  then show "set (value_st (pressedKeys (fst (handleKeyDown nav m event now)))) =
        {k \<in> insert (toLowerCase (key_ev event)) (set (value_st (pressedKeys m))).
           k \<in> {''meta'', ''control'', ''alt'', ''shift''}}"
    by (auto simp: set_add_def)
qed

theorem clearNonModifierKeys_keeps_modifiers_witness:
  "value_st (pressedKeys mgr_held) = [''control''] \<and>
   set (value_st (pressedKeys (fst (handleKeyDown None mgr_held ev_ctrl_s 5)))) = {''control''}"
proof -
  have f: "List.find (\<lambda>(i, c). eligible None (currentScope mgr_held) ev_ctrl_s c)
             (value_st (shortcuts mgr_held)) \<noteq> None"
    by code_simp
  have p: "value_st (pressedKeys mgr_held) = [''control'']" by code_simp
  have k: "toLowerCase (key_ev ev_ctrl_s) = ''s''" by code_simp
  from clearNonModifierKeys_keeps_modifiers [of mgr_held None ev_ctrl_s 5] f
  have "set (value_st (pressedKeys (fst (handleKeyDown None mgr_held ev_ctrl_s 5)))) =
        {k \<in> insert (toLowerCase (key_ev ev_ctrl_s)) (set (value_st (pressedKeys mgr_held))).
           k \<in> {''meta'', ''control'', ''alt'', ''shift''}}"
    by blast
  then show ?thesis unfolding p k by auto
qed

section \<open>Scope\<close>

text \<open>
  C5, as the code has it. A definition passes the scope test of the key-down loop exactly
  when its scope is left out, is the empty string, is \<^verbatim>\<open>global\<close>, or is the current scope
  of the manager; and the loop fires the definition at the head of the table exactly when it
  is not disabled, passes that test and matches the event, going on to the rest of the table
  otherwise.
\<close>

theorem scope_eligibility:
  "(\<not> scope_skips config cur \<longleftrightarrow>
      (scope config = None \<or> scope config = Some [] \<or> scope config = Some ''global'' \<or>
       scope config = Some cur)) \<and>
   handleKeyDown_loop nav ((i, config) # rest) m event now =
     (if enabled config \<noteq> Some False \<and>
         (scope config = None \<or> scope config = Some [] \<or> scope config = Some ''global'' \<or>
          scope config = Some (currentScope m)) \<and>
         matchesKeyCombination nav event (keys config)
      then trigger m i config event now
      else handleKeyDown_loop nav rest m event now)"
  by (auto simp: scope_skips_def split: option.splits)

theorem scope_eligibility_witness:
  "scope_skips cfg_modal ''editor'' \<and> \<not> scope_skips cfg_modal ''modal'' \<and>
   \<not> scope_skips cfg_save ''editor'' \<and>
   handleKeyDown_loop None [(''close'', cfg_modal)] mgr_editor ev_ctrl_s 7 = (mgr_editor, ev_ctrl_s)"
proof -
  have a: "scope cfg_modal = Some ''modal''" "scope cfg_save = None"
    "enabled cfg_modal = None" "currentScope mgr_editor = ''editor''"
    by code_simp+
  from scope_eligibility [of cfg_modal "''editor''" None "''close''" "[]" mgr_editor ev_ctrl_s 7]
       scope_eligibility [of cfg_modal "''modal''" None "''close''" "[]" mgr_editor ev_ctrl_s 7]
       scope_eligibility [of cfg_save "''editor''" None "''close''" "[]" mgr_editor ev_ctrl_s 7]
  show ?thesis by (simp add: a)
qed

text \<open>
  The scope of \<open>cfg_blank\<close> is set, to the empty string; it is neither \<^verbatim>\<open>global\<close> nor the
  current scope \<^verbatim>\<open>editor\<close> of the manager. The scope test lets it pass all the same, and
  the key-down event fires it.
\<close>

theorem scope_empty_string_counterexample:
  "scope cfg_blank = Some [] \<and>
   scope cfg_blank \<noteq> None \<and> scope cfg_blank \<noteq> Some ''global'' \<and>
   scope cfg_blank \<noteq> Some (currentScope mgr_editor) \<and>
   \<not> scope_skips cfg_blank (currentScope mgr_editor) \<and>
   value_st (lastTriggeredShortcut (fst (handleKeyDown None mgr_editor ev_ctrl_s 7))) =
     Some \<lparr> id_ev = ''find'', timestamp = 7,
            originalEvent = ev_ctrl_s\<lparr> defaultPrevented := True, propagationStopped := True \<rparr> \<rparr>"
  by code_simp

section \<open>The shortcut table\<close>

lemma map_set_keys_present:
  "map_get tbl i = Some c \<Longrightarrow> map fst (map_set tbl i v) = map fst tbl"
  by (auto simp: map_get_def map_set_def update_keys dest: map_of_SomeD intro: rev_image_eqI)

text \<open>
  C7. When the table has a definition \<open>c\<close> under the id \<open>i\<close>, \<^verbatim>\<open>enableShortcut(i)\<close> and
  \<^verbatim>\<open>disableShortcut(i)\<close> store \<open>c\<close> with the flag set to true and to false, leave every other
  id as it was and keep the order of the table. When the table has nothing under \<open>i\<close>, the
  table after \<^verbatim>\<open>enableShortcut(i)\<close>, \<^verbatim>\<open>disableShortcut(i)\<close> and \<^verbatim>\<open>unregisterShortcut(i)\<close> is
  the table before, and \<^verbatim>\<open>getShortcut(i)\<close> is undefined. None of the four has a failing
  branch. (The store still notifies its subscribers after each of the three updates.)
\<close>

theorem enable_disable_by_id:
  "(map_get (value_st (shortcuts m)) i = Some c \<longrightarrow>
      getShortcut (enableShortcut m i) i = Some (c\<lparr> enabled := Some True \<rparr>) \<and>
      getShortcut (disableShortcut m i) i = Some (c\<lparr> enabled := Some False \<rparr>) \<and>
      (j \<noteq> i \<longrightarrow> getShortcut (enableShortcut m i) j = getShortcut m j \<and>
                 getShortcut (disableShortcut m i) j = getShortcut m j) \<and>
      map fst (value_st (shortcuts (enableShortcut m i))) = map fst (value_st (shortcuts m)) \<and>
      map fst (value_st (shortcuts (disableShortcut m i))) = map fst (value_st (shortcuts m))) \<and>
   (map_get (value_st (shortcuts m)) i = None \<longrightarrow>
      value_st (shortcuts (enableShortcut m i)) = value_st (shortcuts m) \<and>
      value_st (shortcuts (disableShortcut m i)) = value_st (shortcuts m) \<and>
      value_st (shortcuts (unregisterShortcut m i)) = value_st (shortcuts m) \<and>
      getShortcut m i = None)"
proof (intro conjI impI)
  assume n: "map_get (value_st (shortcuts m)) i = None"
  then have "i \<notin> fst ` set (value_st (shortcuts m))"
    by (simp add: map_get_def map_of_eq_None_iff)
  then show "value_st (shortcuts (unregisterShortcut m i)) = value_st (shortcuts m)"
    by (simp add: unregisterShortcut_def log_def update_def notify_def map_delete_def)
  from n show "value_st (shortcuts (enableShortcut m i)) = value_st (shortcuts m)"
    by (simp add: enableShortcut_def update_def notify_def)
  from n show "value_st (shortcuts (disableShortcut m i)) = value_st (shortcuts m)"
    by (simp add: disableShortcut_def update_def notify_def)
  from n show "getShortcut m i = None" by (simp add: getShortcut_def get_def)
next
  assume s: "map_get (value_st (shortcuts m)) i = Some c"
  from s show "getShortcut (enableShortcut m i) i = Some (c\<lparr> enabled := Some True \<rparr>)"
    by (simp add: getShortcut_def get_def enableShortcut_def update_def notify_def
        map_get_def map_set_def update_conv')
  from s show "getShortcut (disableShortcut m i) i = Some (c\<lparr> enabled := Some False \<rparr>)"
    by (simp add: getShortcut_def get_def disableShortcut_def update_def notify_def
        map_get_def map_set_def update_conv')
  from s show "map fst (value_st (shortcuts (enableShortcut m i))) =
                 map fst (value_st (shortcuts m))"
    by (simp add: enableShortcut_def update_def notify_def map_set_keys_present)
  from s show "map fst (value_st (shortcuts (disableShortcut m i))) =
                 map fst (value_st (shortcuts m))"
    by (simp add: disableShortcut_def update_def notify_def map_set_keys_present)
next
  assume s: "map_get (value_st (shortcuts m)) i = Some c" and j: "j \<noteq> i"
  from s j show "getShortcut (enableShortcut m i) j = getShortcut m j"
    by (simp add: getShortcut_def get_def enableShortcut_def update_def notify_def
        map_get_def map_set_def update_conv')
  from s j show "getShortcut (disableShortcut m i) j = getShortcut m j"
    by (simp add: getShortcut_def get_def disableShortcut_def update_def notify_def
        map_get_def map_set_def update_conv')
qed

theorem enable_disable_by_id_witness:
  "getShortcut (disableShortcut mgr_two ''save'') ''save'' =
     Some (cfg_save\<lparr> enabled := Some False \<rparr>) \<and>
   getShortcut (enableShortcut mgr_two ''save'') ''save'' =
     Some (cfg_save\<lparr> enabled := Some True \<rparr>) \<and>
   getShortcut (disableShortcut mgr_two ''save'') ''save2'' = Some cfg_save2 \<and>
   value_st (shortcuts (enableShortcut mgr_two ''undo'')) =
     [(''save'', cfg_save), (''save2'', cfg_save2)] \<and>
   value_st (shortcuts (disableShortcut mgr_two ''undo'')) =
     [(''save'', cfg_save), (''save2'', cfg_save2)] \<and>
   value_st (shortcuts (unregisterShortcut mgr_two ''undo'')) =
     [(''save'', cfg_save), (''save2'', cfg_save2)] \<and>
   getShortcut mgr_two ''undo'' = None"
proof -
  have t: "value_st (shortcuts mgr_two) = [(''save'', cfg_save), (''save2'', cfg_save2)]"
    by code_simp
  have a: "map_get (value_st (shortcuts mgr_two)) ''save'' = Some cfg_save"
    and b: "map_get (value_st (shortcuts mgr_two)) ''undo'' = None"
    and c: "getShortcut mgr_two ''save2'' = Some cfg_save2"
    by code_simp+
  have d: "''save2'' \<noteq> ''save''" by simp
  from enable_disable_by_id [of mgr_two "''save''" cfg_save "''save2''"]
       enable_disable_by_id [of mgr_two "''undo''" cfg_save "''save2''"] a b c d t
  show ?thesis by simp
qed

lemma shortcuts_checkConflicts: "shortcuts (checkConflicts nav m) = shortcuts m"
  by (simp add: checkConflicts_def Let_def)

lemma shortcuts_log: "shortcuts (log m msg) = shortcuts m"
  by (simp add: log_def)

lemma find_rev_last:
  "c \<in> set cs \<Longrightarrow> P c \<Longrightarrow> List.find P (rev cs) = Some (last (filter P cs))"
proof (induction cs rule: rev_induct)
  case Nil
  then show ?case by simp
next
  case (snoc x xs)
  then show ?case by auto
qed

lemma map_of_foldl_map_set:
  "map_of (foldl (\<lambda>newMap config. map_set newMap (f config) config) tbl configs) i =
     (case List.find (\<lambda>c. f c = i) (rev configs) of
        Some c \<Rightarrow> Some c
      | None \<Rightarrow> map_of tbl i)"
  by (induction configs rule: rev_induct) (simp_all add: map_set_def update_conv')

lemma distinct_foldl_map_set:
  "distinct (map fst tbl) \<Longrightarrow>
   distinct (map fst (foldl (\<lambda>newMap config. map_set newMap (f config) config) tbl configs))"
  by (induction configs rule: rev_induct) (simp_all add: map_set_def distinct_update)

lemma new_Map_entries:
  "new_Map (map (\<lambda>c. (f c, c)) configs) =
     foldl (\<lambda>newMap config. map_set newMap (f config) config) [] configs"
  by (simp add: new_Map_def foldl_map)

lemma one_entry_per_key:
  "distinct (map fst xs) \<Longrightarrow> map_of xs i = Some v \<Longrightarrow> filter (\<lambda>e. fst e = i) xs = [(i, v)]"
proof (induction xs)
  case Nil
  then show ?case by simp
next
  case (Cons x xs)
  show ?case
  proof (cases "fst x = i")
    case True
    from Cons.prems have "fst x \<notin> fst ` set xs" by simp
    with True have "\<forall>e \<in> set xs. fst e \<noteq> i" by blast
    then have "filter (\<lambda>e. fst e = i) xs = []"
      by (simp add: filter_empty_conv)
    with True Cons.prems show ?thesis by (cases x) auto
  next
    case False
    with Cons show ?thesis by (cases x) auto
  qed
qed

text \<open>
  C10. Let \<open>c\<close> be one of the definitions given to \<^verbatim>\<open>registerShortcuts\<close>, or to
  \<^verbatim>\<open>loadShortcuts\<close>, which builds the table of a manager constructed with initial
  shortcuts. The table then
  holds, under the id of \<open>c\<close>, the last definition of the list that has this id, and that
  entry is the only one with this id; the ids of the table are pairwise different. For
  \<^verbatim>\<open>registerShortcuts\<close>, which adds to the table it finds, uniqueness is kept from that
  table.
\<close>

theorem registerShortcuts_last_wins:
  "(c \<in> set configs \<longrightarrow>
      getShortcut (registerShortcuts nav m configs) (id_cfg c) =
        Some (last (filter (\<lambda>d. id_cfg d = id_cfg c) configs)) \<and>
      getShortcut (loadShortcuts nav m configs) (id_cfg c) =
        Some (last (filter (\<lambda>d. id_cfg d = id_cfg c) configs)) \<and>
      filter (\<lambda>e. fst e = id_cfg c) (value_st (shortcuts (loadShortcuts nav m configs))) =
        [(id_cfg c, last (filter (\<lambda>d. id_cfg d = id_cfg c) configs))] \<and>
      (distinct (map fst (value_st (shortcuts m))) \<longrightarrow>
         filter (\<lambda>e. fst e = id_cfg c) (value_st (shortcuts (registerShortcuts nav m configs))) =
           [(id_cfg c, last (filter (\<lambda>d. id_cfg d = id_cfg c) configs))])) \<and>
   distinct (map fst (value_st (shortcuts (loadShortcuts nav m configs)))) \<and>
   (distinct (map fst (value_st (shortcuts m))) \<longrightarrow>
      distinct (map fst (value_st (shortcuts (registerShortcuts nav m configs))))) \<and>
   value_st (shortcuts (constructor nav \<lparr> shortcuts_opt = Some configs, scope_opt = so,
                                            debug_opt = dbo \<rparr>)) =
     value_st (shortcuts (loadShortcuts nav m configs))"
proof -
  let ?reg = "value_st (shortcuts (registerShortcuts nav m configs))"
  let ?load = "value_st (shortcuts (loadShortcuts nav m configs))"
  have reg: "?reg = foldl (\<lambda>newMap config. map_set newMap (id_cfg config) config)
                      (value_st (shortcuts m)) configs"
    by (simp add: registerShortcuts_def Let_def shortcuts_log shortcuts_checkConflicts
        update_def notify_def)
  have load: "?load = foldl (\<lambda>newMap config. map_set newMap (id_cfg config) config) [] configs"
    by (simp add: loadShortcuts_def Let_def shortcuts_checkConflicts set_st_def notify_def
        new_Map_entries)
  have dl: "distinct (map fst ?load)"
    unfolding load by (rule distinct_foldl_map_set) simp
  have dr: "distinct (map fst (value_st (shortcuts m))) \<Longrightarrow> distinct (map fst ?reg)"
    unfolding reg by (rule distinct_foldl_map_set)
  have gr: "map_of ?reg (id_cfg c) = Some (last (filter (\<lambda>d. id_cfg d = id_cfg c) configs))"
    if "c \<in> set configs"
    unfolding reg map_of_foldl_map_set
    using find_rev_last [of c configs "\<lambda>d. id_cfg d = id_cfg c"] that
    by simp
  have gl: "map_of ?load (id_cfg c) = Some (last (filter (\<lambda>d. id_cfg d = id_cfg c) configs))"
    if "c \<in> set configs"
    unfolding load map_of_foldl_map_set
    using find_rev_last [of c configs "\<lambda>d. id_cfg d = id_cfg c"] that
    by simp
  have lv: "value_st (shortcuts (loadShortcuts nav m' cs)) =
              new_Map (map (\<lambda>c. (id_cfg c, c)) cs)" for m' cs
    by (simp add: loadShortcuts_def Let_def shortcuts_checkConflicts set_st_def notify_def)
  have co: "value_st (shortcuts (constructor nav \<lparr> shortcuts_opt = Some configs, scope_opt = so,
                                                     debug_opt = dbo \<rparr>)) = ?load"
    by (cases configs) (simp_all add: constructor_def Let_def createStore_def lv new_Map_def)
  show ?thesis
    using dl dr gr gl one_entry_per_key [OF dl gl] one_entry_per_key [OF dr gr] co
    by (simp add: getShortcut_def get_def map_get_def)
qed

theorem registerShortcuts_last_wins_witness:
  "getShortcut (registerShortcuts None mgr_two [cfg_save_new, cfg_save]) ''save'' =
     Some cfg_save \<and>
   getShortcut (registerShortcuts None mgr_two [cfg_save, cfg_save_new]) ''save'' =
     Some cfg_save_new \<and>
   value_st (shortcuts (loadShortcuts None mgr_two [cfg_save, cfg_save2, cfg_save_new])) =
     [(''save'', cfg_save_new), (''save2'', cfg_save2)]"
proof -
  have d: "distinct (map fst (value_st (shortcuts mgr_two)))" by code_simp
  have i: "id_cfg cfg_save = ''save''" "id_cfg cfg_save_new = ''save''" by code_simp+
  have l1: "last (filter (\<lambda>d. id_cfg d = ''save'') [cfg_save_new, cfg_save]) = cfg_save"
    and l2: "last (filter (\<lambda>d. id_cfg d = ''save'') [cfg_save, cfg_save_new]) = cfg_save_new"
    by (simp_all add: i)
  have v: "value_st (shortcuts (loadShortcuts None mgr_two [cfg_save, cfg_save2, cfg_save_new])) =
     [(''save'', cfg_save_new), (''save2'', cfg_save2)]" by code_simp
  from registerShortcuts_last_wins [of cfg_save "[cfg_save_new, cfg_save]" None mgr_two]
       registerShortcuts_last_wins [of cfg_save_new "[cfg_save, cfg_save_new]" None mgr_two]
       d l1 l2 v
  show ?thesis by (simp add: i)
qed

text \<open>
  Every table the manager builds has one entry per id: the constructor gives such a table
  and each operation keeps the property.
\<close>

lemma table_ids_distinct:
  "distinct (map fst (value_st (shortcuts (constructor nav options))))"
  "distinct (map fst (value_st (shortcuts m))) \<Longrightarrow>
   distinct (map fst (value_st (shortcuts (registerShortcut nav m config))))"
  "distinct (map fst (value_st (shortcuts m))) \<Longrightarrow>
   distinct (map fst (value_st (shortcuts (registerShortcuts nav m configs))))"
  "distinct (map fst (value_st (shortcuts m))) \<Longrightarrow>
   distinct (map fst (value_st (shortcuts (unregisterShortcut m i))))"
  "distinct (map fst (value_st (shortcuts m))) \<Longrightarrow>
   distinct (map fst (value_st (shortcuts (enableShortcut m i))))"
  "distinct (map fst (value_st (shortcuts m))) \<Longrightarrow>
   distinct (map fst (value_st (shortcuts (disableShortcut m i))))"
  "distinct (map fst (value_st (shortcuts m))) \<Longrightarrow>
   distinct (map fst (value_st (shortcuts (fst (handleKeyDown nav m event now)))))"
proof -
  have l: "distinct (map fst (value_st (shortcuts (loadShortcuts nav m' cs))))" for m' cs
    unfolding loadShortcuts_def Let_def shortcuts_checkConflicts new_Map_entries
    by (simp add: set_st_def notify_def distinct_foldl_map_set)
  show "distinct (map fst (value_st (shortcuts (constructor nav options))))"
    by (simp add: constructor_def Let_def l createStore_def)
  show "distinct (map fst (value_st (shortcuts m))) \<Longrightarrow>
   distinct (map fst (value_st (shortcuts (registerShortcut nav m config))))"
    by (simp add: registerShortcut_def Let_def shortcuts_log shortcuts_checkConflicts
        update_def notify_def map_set_def distinct_update)
  show "distinct (map fst (value_st (shortcuts m))) \<Longrightarrow>
   distinct (map fst (value_st (shortcuts (registerShortcuts nav m configs))))"
    by (simp add: registerShortcuts_def Let_def shortcuts_log shortcuts_checkConflicts
        update_def notify_def distinct_foldl_map_set)
  show "distinct (map fst (value_st (shortcuts m))) \<Longrightarrow>
   distinct (map fst (value_st (shortcuts (unregisterShortcut m i))))"
    by (simp add: unregisterShortcut_def shortcuts_log update_def notify_def
        map_delete_def distinct_delete)
  show "distinct (map fst (value_st (shortcuts m))) \<Longrightarrow>
   distinct (map fst (value_st (shortcuts (enableShortcut m i))))"
    by (simp add: enableShortcut_def update_def notify_def map_set_def
        distinct_update split: option.splits)
  show "distinct (map fst (value_st (shortcuts m))) \<Longrightarrow>
   distinct (map fst (value_st (shortcuts (disableShortcut m i))))"
    by (simp add: disableShortcut_def update_def notify_def map_set_def
        distinct_update split: option.splits)
  show "distinct (map fst (value_st (shortcuts m))) \<Longrightarrow>
   distinct (map fst (value_st (shortcuts (fst (handleKeyDown nav m event now)))))"
    by (simp add: handleKeyDown_find Let_def trigger_def log_def
        notifySubscribers_def clearNonModifierKeys_def split: option.splits prod.splits)
qed

section \<open>The conflict detector\<close>

lemma find_snoc:
  "List.find P (xs @ [x]) =
     (case List.find P xs of Some y \<Rightarrow> Some y | None \<Rightarrow> if P x then Some x else None)"
  by (induction xs) auto

text \<open>
  On definitions whose ids are not empty, the loop keeps in \<^verbatim>\<open>seenKeys\<close> the id of the
  first definition seen for each normalized combination, and returns the conflicts of the
  description.
\<close>

lemma detectConflicts_loop_first_seen:
  "\<forall>c \<in> set cs. id_cfg c \<noteq> [] \<Longrightarrow>
   \<forall>k. map_of seenKeys k =
         map_option id_cfg (List.find (\<lambda>p. normalizedKeys nav p = k) earlier) \<Longrightarrow>
   \<forall>c \<in> set earlier. id_cfg c \<noteq> [] \<Longrightarrow>
   snd (detectConflicts_loop nav cs seenKeys acc) = acc @ conflicts_first_seen nav earlier cs"
proof (induction cs arbitrary: seenKeys acc earlier)
  case Nil
  then show ?case by simp
next
  case (Cons c cs)
  let ?k = "normalizedKeys nav c"
  show ?case
  proof (cases "List.find (\<lambda>p. normalizedKeys nav p = ?k) earlier")
    case None
    with Cons.prems(2) have g: "map_get seenKeys ?k = None" by (simp add: map_get_def)
    have inv: "\<forall>k. map_of (map_set seenKeys ?k (id_cfg c)) k =
                 map_option id_cfg (List.find (\<lambda>p. normalizedKeys nav p = k) (earlier @ [c]))"
      using Cons.prems(2) None
      by (auto simp: map_set_def update_conv' find_snoc split: option.splits)
    have "snd (detectConflicts_loop nav cs (map_set seenKeys ?k (id_cfg c)) acc) =
            acc @ conflicts_first_seen nav (earlier @ [c]) cs"
      using Cons.prems by (intro Cons.IH inv) auto
    with g None show ?thesis by (simp add: normalizedKeys_def Let_def)
  next
    case (Some f)
    then have fe: "f \<in> set earlier" by (auto simp: find_Some_iff)
    with Cons.prems(3) have ne: "id_cfg f \<noteq> []" by blast
    from Some Cons.prems(2) have g: "map_get seenKeys ?k = Some (id_cfg f)"
      by (simp add: map_get_def)
    have inv: "\<forall>k. map_of seenKeys k =
                 map_option id_cfg (List.find (\<lambda>p. normalizedKeys nav p = k) (earlier @ [c]))"
      using Cons.prems(2) Some by (auto simp: find_snoc split: option.splits)
    have "snd (detectConflicts_loop nav cs seenKeys
                 (acc @ [\<lparr> id1 = id_cfg f, id2 = id_cfg c, keys_cf = ?k \<rparr>])) =
            (acc @ [\<lparr> id1 = id_cfg f, id2 = id_cfg c, keys_cf = ?k \<rparr>]) @
              conflicts_first_seen nav (earlier @ [c]) cs"
      using Cons.prems by (intro Cons.IH inv) auto
    with g Some ne show ?thesis by (simp add: normalizedKeys_def Let_def)
  qed
qed

lemma detectConflicts_nonempty_ids:
  "\<forall>c \<in> set cs. id_cfg c \<noteq> [] \<Longrightarrow> detectConflicts nav cs = conflicts_first_seen nav [] cs"
  using detectConflicts_loop_first_seen [of cs "[]" nav "[]" "[]"]
  by (simp add: detectConflicts_def)

text \<open>The example of the description: the third definition conflicts with the first.\<close>

lemma detectConflicts_third_against_first:
  "detectConflicts None [cfg_a, cfg_b, cfg_c] =
     [\<lparr> id1 = ''a'', id2 = ''b'', keys_cf = ''ctrl+s'' \<rparr>,
      \<lparr> id1 = ''a'', id2 = ''c'', keys_cf = ''ctrl+s'' \<rparr>] \<and>
   detectConflicts (Some ''MacIntel'') [cfg_a, cfg_b, cfg_c] =
     [\<lparr> id1 = ''a'', id2 = ''b'', keys_cf = ''meta+s'' \<rparr>,
      \<lparr> id1 = ''a'', id2 = ''c'', keys_cf = ''meta+s'' \<rparr>]"
  by code_simp

text \<open>
  C2 at a first definition whose id is the empty string. The description gives one
  conflict for each later definition bound to the same combination, each against the first
  id. The code reads the empty id it stored as "not seen": the second definition is not
  reported and takes the place of the first in \<^verbatim>\<open>seenKeys\<close>, so that the third is
  reported against the second.
\<close>

theorem detectConflicts_empty_id:
  "detectConflicts None [cfg_noid, cfg_b] = [] \<and>
   conflicts_first_seen None [] [cfg_noid, cfg_b] =
     [\<lparr> id1 = [], id2 = ''b'', keys_cf = ''ctrl+s'' \<rparr>] \<and>
   detectConflicts None [cfg_noid, cfg_b, cfg_c] =
     [\<lparr> id1 = ''b'', id2 = ''c'', keys_cf = ''ctrl+s'' \<rparr>] \<and>
   conflicts_first_seen None [] [cfg_noid, cfg_b, cfg_c] =
     [\<lparr> id1 = [], id2 = ''b'', keys_cf = ''ctrl+s'' \<rparr>,
      \<lparr> id1 = [], id2 = ''c'', keys_cf = ''ctrl+s'' \<rparr>]"
  by code_simp

section \<open>Two normalizations of a combination\<close>

lemma replace_mod_no_m: "CHR ''m'' \<notin> set s \<Longrightarrow> replace_mod r pw s = s"
proof (induction s arbitrary: pw)
  case Nil
  show ?case by simp
next
  case (Cons c cs)
  then have "c \<noteq> CHR ''m''" and "CHR ''m'' \<notin> set cs" by auto
  moreover have "take 3 (c # cs) \<noteq> ''mod''" using \<open>c \<noteq> CHR ''m''\<close> by auto
  ultimately show ?case using Cons.IH by simp
qed

lemma resolve_ctrl_s:
  "resolvePlatformModifier nav ''ctrl+s'' = ''ctrl+s''"
  "resolvePlatformModifier nav ''ctrl + s'' = ''ctrl + s''"
  by (simp_all add: resolvePlatformModifier_def Let_def replace_mod_no_m)

lemma parts_ctrl_s:
  "map trim (str_split (CHR ''+'') (toLowerCase ''ctrl+s'')) = [''ctrl'', ''s'']"
  "map trim (str_split (CHR ''+'') (toLowerCase ''ctrl + s'')) = [''ctrl'', ''s'']"
  "toLowerCase ''ctrl+s'' = ''ctrl+s''"
  "toLowerCase ''ctrl + s'' = ''ctrl + s''"
  by code_simp+

lemma trim_ctrl_s:
  "trim ''ctrl'' = ''ctrl''" "trim ''ctrl '' = ''ctrl''" "trim ''s'' = ''s''" "trim '' s'' = ''s''"
  by code_simp+

lemma parse_ctrl_s:
  "parseKeyCombination nav ''ctrl+s'' = \<lparr> modifiers = [''ctrl''], key = ''s'' \<rparr>"
  "parseKeyCombination nav ''ctrl + s'' = \<lparr> modifiers = [''ctrl''], key = ''s'' \<rparr>"
  by (simp_all add: parseKeyCombination_def resolve_ctrl_s parts_ctrl_s trim_ctrl_s Let_def
      new_Set_def set_add_def)

text \<open>
  C9. The parser trims the parts of a combination, the conflict detector compares the
  combinations untrimmed. On every platform, \<^verbatim>\<open>ctrl+s\<close> and \<^verbatim>\<open>ctrl + s\<close> parse to the same
  modifiers and key and so match the same events; yet for any two definitions \<open>a\<close> and \<open>b\<close>
  bound to them, whatever their ids, the detector reports nothing, in either order, and a
  new manager in which both are registered has written no warning.
\<close>

theorem spaced_combination_no_conflict:
  "parseKeyCombination nav ''ctrl+s'' = parseKeyCombination nav ''ctrl + s'' \<and>
   matchesKeyCombination nav event ''ctrl+s'' = matchesKeyCombination nav event ''ctrl + s'' \<and>
   detectConflicts nav [a\<lparr> keys := ''ctrl+s'' \<rparr>, b\<lparr> keys := ''ctrl + s'' \<rparr>] = [] \<and>
   detectConflicts nav [b\<lparr> keys := ''ctrl + s'' \<rparr>, a\<lparr> keys := ''ctrl+s'' \<rparr>] = [] \<and>
   console (registerShortcut nav
              (registerShortcut nav
                 (constructor nav \<lparr> shortcuts_opt = None, scope_opt = None, debug_opt = None \<rparr>)
                 (a\<lparr> keys := ''ctrl+s'' \<rparr>))
              (b\<lparr> keys := ''ctrl + s'' \<rparr>)) = []"
proof -
  have d1: "detectConflicts nav [a\<lparr> keys := ''ctrl+s'' \<rparr>, b\<lparr> keys := ''ctrl + s'' \<rparr>] = []"
    by (simp add: detectConflicts_def Let_def resolve_ctrl_s parts_ctrl_s map_get_def map_set_def)
  have d2: "detectConflicts nav [b\<lparr> keys := ''ctrl + s'' \<rparr>, a\<lparr> keys := ''ctrl+s'' \<rparr>] = []"
    by (simp add: detectConflicts_def Let_def resolve_ctrl_s parts_ctrl_s map_get_def map_set_def)
  have d3: "detectConflicts nav [a\<lparr> keys := ''ctrl+s'' \<rparr>] = []"
           "detectConflicts nav [b\<lparr> keys := ''ctrl + s'' \<rparr>] = []"
    by (simp_all add: detectConflicts_def Let_def map_get_def map_set_def)
  have c: "console (registerShortcut nav
              (registerShortcut nav
                 (constructor nav \<lparr> shortcuts_opt = None, scope_opt = None, debug_opt = None \<rparr>)
                 (a\<lparr> keys := ''ctrl+s'' \<rparr>))
              (b\<lparr> keys := ''ctrl + s'' \<rparr>)) = []"
    by (simp add: registerShortcut_def constructor_def Let_def checkConflicts_def log_def
        update_def notify_def createStore_def get_def map_set_def map_values_def d1 d3)
  show ?thesis
    by (simp add: d1 d2 c parse_ctrl_s matchesKeyCombination_def)
qed

theorem spaced_combination_no_conflict_witness:
  "matchesKeyCombination None ev_ctrl_s ''ctrl + s'' \<and>
   detectConflicts None [cfg_a\<lparr> keys := ''ctrl+s'' \<rparr>, cfg_b\<lparr> keys := ''ctrl + s'' \<rparr>] = []"
proof -
  have h: "matchesKeyCombination None ev_ctrl_s ''ctrl+s''" by code_simp
  from spaced_combination_no_conflict [of None ev_ctrl_s cfg_a cfg_b] h
  show ?thesis by simp
qed

section \<open>Platform resolution\<close>

lemma concat_word_runs: "concat (word_runs s) = s"
  by (induction s rule: word_runs.induct) simp_all

lemma isWordChar_mod: "isWordChar (CHR ''m'')" "isWordChar (CHR ''o'')" "isWordChar (CHR ''d'')"
  by code_simp+

text \<open>Behind a word character the scan copies the rest of the word.\<close>

lemma replace_mod_True:
  "replace_mod r True s = takeWhile isWordChar s @ replace_mod r False (dropWhile isWordChar s)"
proof (induction s)
  case Nil
  show ?case by simp
next
  case (Cons c cs)
  show ?case
  proof (cases "isWordChar c")
    case True
    with Cons show ?thesis by simp
  next
    case False
    then have "c \<noteq> CHR ''m''" using isWordChar_mod by auto
    with False show ?thesis by simp
  qed
qed

lemma takeWhile_dropWhile_same: "takeWhile P (dropWhile P xs) = []"
  by (induction xs) auto

text \<open>The scan replaces the word runs that are \<^verbatim>\<open>mod\<close> and copies every other run.\<close>

lemma replace_mod_runs:
  "replace_mod r False s = concat (map (\<lambda>t. if t = ''mod'' then r else t) (word_runs s))"
proof (induction s rule: word_runs.induct)
  case 1
  show ?case by simp
next
  case (2 c cs)
  show ?case
  proof (cases "isWordChar c")
    case False
    then have "c \<noteq> CHR ''m''" using isWordChar_mod by auto
    with False 2 show ?thesis by simp
  next
    case True
    let ?w = "c # takeWhile isWordChar cs"
    let ?rest = "dropWhile isWordChar cs"
    have IH: "replace_mod r False ?rest =
                concat (map (\<lambda>t. if t = ''mod'' then r else t) (word_runs ?rest))"
      using 2 True by simp
    have restT: "replace_mod r True ?rest = replace_mod r False ?rest"
      by (subst replace_mod_True) (simp add: takeWhile_dropWhile_same)
    show ?thesis
    proof (cases "?w = ''mod''")
      case w: True
      then have c: "c = CHR ''m''" and tw: "takeWhile isWordChar cs = ''od''" by auto
      from tw obtain rest' where cs: "cs = ''od'' @ rest'"
        by (metis takeWhile_dropWhile_id)
      with tw have "takeWhile isWordChar rest' = []" by (simp add: isWordChar_mod)
      then have r': "rest' = [] \<or> \<not> isWordChar (hd rest')"
        by (cases rest') (auto split: if_splits)
      have dr: "?rest = rest'" using cs r' by (cases rest') (auto simp: isWordChar_mod)
      have "replace_mod r False (c # cs) = r @ replace_mod r True rest'"
        using c cs r' by (cases rest') auto
      with w True dr restT IH show ?thesis by simp
    next
      case w: False
      have nomatch: "\<not> (take 3 (c # cs) = ''mod'' \<and>
                        (case drop 2 cs of [] \<Rightarrow> True | d # _ \<Rightarrow> \<not> isWordChar d))"
      proof
        assume a: "take 3 (c # cs) = ''mod'' \<and>
                        (case drop 2 cs of [] \<Rightarrow> True | d # _ \<Rightarrow> \<not> isWordChar d)"
        then have cm: "c = CHR ''m''" and t2: "take 2 cs = ''od''" by auto
        from t2 have "cs = ''od'' @ drop 2 cs" by (metis append_take_drop_id)
        then have "takeWhile isWordChar cs = takeWhile isWordChar (''od'' @ drop 2 cs)"
          by simp
        also have "\<dots> = ''od'' @ takeWhile isWordChar (drop 2 cs)"
          by (simp add: isWordChar_mod)
        finally have "takeWhile isWordChar cs = ''od'' @ takeWhile isWordChar (drop 2 cs)" .
        moreover have "takeWhile isWordChar (drop 2 cs) = []"
          using a by (cases "drop 2 cs") auto
        ultimately have "?w = ''mod''" using cm by simp
        with w show False by simp
      qed
      then have "replace_mod r False (c # cs) = c # replace_mod r True cs"
        using True by auto
      also have "\<dots> = ?w @ replace_mod r False ?rest"
        by (simp add: replace_mod_True)
      finally have eq: "replace_mod r False (c # cs) = ?w @ replace_mod r False ?rest" .
      have "concat (map (\<lambda>t. if t = ''mod'' then r else t) (word_runs (c # cs))) =
              ?w @ concat (map (\<lambda>t. if t = ''mod'' then r else t) (word_runs ?rest))"
        using w True by auto
      then show ?thesis by (simp only: eq IH)
    qed
  qed
qed

lemma str_split_no_sep: "sep \<notin> set a \<Longrightarrow> str_split sep a = [a]"
  by (induction a) auto

lemma str_split_first_sep:
  "sep \<notin> set a \<Longrightarrow> str_split sep (a @ sep # b) = a # str_split sep b"
  by (induction a) auto

lemma takeWhile_before_nonword:
  "\<not> P x \<Longrightarrow> takeWhile P (cs @ x # q) = takeWhile P cs"
  by (induction cs) auto

lemma dropWhile_before_nonword:
  "\<not> P x \<Longrightarrow> dropWhile P (cs @ x # q) = dropWhile P cs @ x # q"
  by (induction cs) auto

lemma word_runs_nonword:
  "\<not> isWordChar x \<Longrightarrow> word_runs (p @ x # q) = word_runs p @ [x] # word_runs q"
proof (induction p rule: word_runs.induct)
  case 1
  then show ?case by simp
next
  case (2 c cs)
  then show ?case
    by (simp add: takeWhile_before_nonword dropWhile_before_nonword)
qed

lemma plus_not_word: "\<not> isWordChar (CHR ''+'')"
  by code_simp

lemma replace_mod_plus:
  "replace_mod r False (p @ CHR ''+'' # q) = replace_mod r False p @ CHR ''+'' # replace_mod r False q"
  by (simp add: replace_mod_runs word_runs_nonword plus_not_word)

lemma set_replace_mod: "set (replace_mod r False s) \<subseteq> set r \<union> set s"
proof -
  have "set (concat (map (\<lambda>t. if t = ''mod'' then r else t) (word_runs s)))
          \<subseteq> set r \<union> set (concat (word_runs s))"
    by auto
  then show ?thesis by (simp add: replace_mod_runs concat_word_runs)
qed

lemma str_split_replace_mod:
  "CHR ''+'' \<notin> set r \<Longrightarrow>
   str_split (CHR ''+'') (replace_mod r False s) =
     map (replace_mod r False) (str_split (CHR ''+'') s)"
proof (induction s rule: length_induct)
  case (1 s)
  show ?case
  proof (cases "CHR ''+'' \<in> set s")
    case False
    with 1(2) set_replace_mod [of r s] have "CHR ''+'' \<notin> set (replace_mod r False s)" by auto
    with False show ?thesis by (simp add: str_split_no_sep)
  next
    case True
    then obtain a b where s: "s = a @ CHR ''+'' # b" and a: "CHR ''+'' \<notin> set a"
      by (auto dest: split_list_first)
    from a 1(2) set_replace_mod [of r a] have ra: "CHR ''+'' \<notin> set (replace_mod r False a)" by auto
    have "length b < length s" using s by simp
    with 1 have IH: "str_split (CHR ''+'') (replace_mod r False b) =
                       map (replace_mod r False) (str_split (CHR ''+'') b)" by blast
    show ?thesis
      unfolding s by (simp add: replace_mod_plus str_split_first_sep a ra IH)
  qed
qed

text \<open>
  C6, as the code has it. The tokens of a combination are its parts between the \<^verbatim>\<open>+\<close>
  signs. The resolution works on each token by itself: a token that is \<^verbatim>\<open>mod\<close> becomes
  \<^verbatim>\<open>meta\<close> when the platform string contains \<^verbatim>\<open>mac\<close> in any case and \<^verbatim>\<open>ctrl\<close> otherwise
  (also when there is no navigator); a token in which \<^verbatim>\<open>mod\<close> does not stand as a whole word
  is left as it is; in any other token each whole word \<^verbatim>\<open>mod\<close> is replaced in the same way
  and the rest of the token is kept. The same holds of the string as a whole: its word runs
  put together give the string, and the result is the runs put together with each run
  \<^verbatim>\<open>mod\<close> replaced.
\<close>

theorem resolvePlatformModifier_parts:
  "str_split (CHR ''+'') (resolvePlatformModifier nav ks) =
     map (\<lambda>t. if t = ''mod'' then (if isMac nav then ''meta'' else ''ctrl'')
               else if \<not> mod_as_word t then t
               else concat (map (\<lambda>w. if w = ''mod''
                                       then (if isMac nav then ''meta'' else ''ctrl'') else w)
                              (word_runs t)))
       (str_split (CHR ''+'') ks) \<and>
   resolvePlatformModifier nav ks =
     concat (map (\<lambda>w. if w = ''mod'' then (if isMac nav then ''meta'' else ''ctrl'') else w)
               (word_runs ks)) \<and>
   concat (word_runs ks) = ks \<and>
   isMac nav = (case nav of None \<Rightarrow> False | Some p \<Rightarrow> str_includes (toLowerCase p) ''mac'')"
proof -
  let ?r = "if isMac nav then ''meta'' else ''ctrl''"
  let ?part = "\<lambda>t. if t = ''mod'' then ?r
                    else if \<not> mod_as_word t then t
                    else concat (map (\<lambda>w. if w = ''mod'' then ?r else w) (word_runs t))"
  have r: "CHR ''+'' \<notin> set ?r" by simp
  have t: "resolvePlatformModifier nav s =
             concat (map (\<lambda>w. if w = ''mod'' then ?r else w) (word_runs s))" for s
    by (simp add: resolvePlatformModifier_def Let_def replace_mod_runs)
  have f: "resolvePlatformModifier nav = replace_mod ?r False"
    by (rule ext) (simp add: resolvePlatformModifier_def Let_def)
  have sp: "str_split (CHR ''+'') (resolvePlatformModifier nav ks) =
              map (resolvePlatformModifier nav) (str_split (CHR ''+'') ks)"
    unfolding f by (rule str_split_replace_mod [OF r])
  have m: "resolvePlatformModifier nav ''mod'' = ?r"
    by (simp add: resolvePlatformModifier_def Let_def)
  have u: "resolvePlatformModifier nav s = s" if "\<not> mod_as_word s" for s
  proof -
    from that have "map (\<lambda>w. if w = ''mod'' then ?r else w) (word_runs s) = word_runs s"
      by (intro map_idI) (auto simp: mod_as_word_def)
    then show ?thesis by (simp only: t concat_word_runs)
  qed
  have part: "resolvePlatformModifier nav s = ?part s" for s
  proof (cases "s = ''mod''")
    case True
    with m show ?thesis by simp
  next
    case False
    show ?thesis
    proof (cases "mod_as_word s")
      case True
      with False show ?thesis using t [of s] by simp
    next
      case nw: False
      with False show ?thesis using u [of s] by simp
    qed
  qed
  have "map (resolvePlatformModifier nav) (str_split (CHR ''+'') ks) =
          map ?part (str_split (CHR ''+'') ks)"
    by (rule map_cong [OF refl]) (rule part)
  with sp have ps: "str_split (CHR ''+'') (resolvePlatformModifier nav ks) =
                      map ?part (str_split (CHR ''+'') ks)"
    by simp
  have i: "isMac nav =
             (case nav of None \<Rightarrow> False | Some p \<Rightarrow> str_includes (toLowerCase p) ''mac'')"
    by (simp add: isMac_def getPlatform_def Let_def split: option.splits)
  from ps t [of ks] concat_word_runs [of ks] i show ?thesis by blast
qed

theorem resolvePlatformModifier_parts_witness:
  "str_split (CHR ''+'') (resolvePlatformModifier (Some ''MacIntel'') ''mod+shift+z'') =
     [''meta'', ''shift'', ''z''] \<and>
   str_split (CHR ''+'') (resolvePlatformModifier (Some ''Win32'') ''mod+shift+z'') =
     [''ctrl'', ''shift'', ''z''] \<and>
   str_split (CHR ''+'') (resolvePlatformModifier None ''mod+model+s'') =
     [''ctrl'', ''model'', ''s'']"
proof -
  have s: "str_split (CHR ''+'') ''mod+shift+z'' = [''mod'', ''shift'', ''z'']"
          "str_split (CHR ''+'') ''mod+model+s'' = [''mod'', ''model'', ''s'']"
    by code_simp+
  have n: "mod_as_word ''shift'' = False" "mod_as_word ''z'' = False"
          "mod_as_word ''model'' = False" "mod_as_word ''s'' = False"
    by code_simp+
  have p: "isMac (Some ''MacIntel'') = True" "isMac (Some ''Win32'') = False"
          "isMac None = False"
    by code_simp+
  have e: "str_split (CHR ''+'') (resolvePlatformModifier nav ks) =
     map (\<lambda>t. if t = ''mod'' then (if isMac nav then ''meta'' else ''ctrl'')
               else if \<not> mod_as_word t then t
               else concat (map (\<lambda>w. if w = ''mod''
                                       then (if isMac nav then ''meta'' else ''ctrl'') else w)
                              (word_runs t)))
       (str_split (CHR ''+'') ks)" for nav ks
    using resolvePlatformModifier_parts [of nav ks] by blast
  have a: "str_split (CHR ''+'') (resolvePlatformModifier nav ''mod+shift+z'') =
             [if isMac nav then ''meta'' else ''ctrl'', ''shift'', ''z'']" for nav
    unfolding e s by (simp add: n)
  have b: "str_split (CHR ''+'') (resolvePlatformModifier nav ''mod+model+s'') =
             [if isMac nav then ''meta'' else ''ctrl'', ''model'', ''s'']" for nav
    unfolding e s by (simp add: n)
  show ?thesis by (simp add: a b p)
qed

text \<open>
  The combination \<^verbatim>\<open>mod+mod-x+s\<close> has the tokens \<^verbatim>\<open>mod\<close>, \<^verbatim>\<open>mod-x\<close> and \<^verbatim>\<open>s\<close>. The second
  is a token other than \<^verbatim>\<open>mod\<close>, and the resolution changes it, to \<^verbatim>\<open>ctrl-x\<close>.
\<close>

theorem resolvePlatformModifier_part_counterexample:
  "str_split (CHR ''+'') ''mod+mod-x+s'' = [''mod'', ''mod-x'', ''s''] \<and>
   ''mod-x'' \<noteq> ''mod'' \<and>
   resolvePlatformModifier None ''mod+mod-x+s'' = ''ctrl+ctrl-x+s'' \<and>
   str_split (CHR ''+'') (resolvePlatformModifier None ''mod+mod-x+s'') =
     [''ctrl'', ''ctrl-x'', ''s'']"
  by code_simp

end
